theory Spec2Isabelle
  imports Complex_Main "HOL-Library.Char_ord"
begin

section \<open>The notebook's preprocessing pipeline\<close>

text \<open>
  The notebook \<^verbatim>\<open>notes.ipynb\<close> works on module-level variables. Each code cell is
  embedded as a function of the variables it reads. Symbols are the elements of a
  linearly ordered type (Python orders the characters of a string by code point);
  token ids and tensor entries are Python integers, hence \<open>int\<close>.
\<close>

subsection \<open>Exceptions\<close>

text \<open>
  The cells raise nothing themselves. The only failures are those of Python's own
  operations: a dictionary lookup of a missing key raises \<^verbatim>\<open>KeyError(key)\<close>, whose only
  argument is the key, reading a tensor at an index beyond its end raises
  \<^verbatim>\<open>IndexError\<close>, and \<^verbatim>\<open>OverflowError\<close> is raised by converting to a float an
  integer beyond the range of the floats, and by converting an infinite float to an
  integer.
\<close>

datatype 'k error = KeyError 'k | IndexError | OverflowError

subsection \<open>Slicing\<close>

text \<open>
  Python's \<^verbatim>\<open>xs[lo:hi]\<close> never raises: a negative bound counts from the end, and
  every bound is clamped to the range \<open>0..len(xs)\<close>; the result is empty when the
  clamped upper bound does not exceed the lower one.
\<close>

definition clamp_index :: "nat \<Rightarrow> int \<Rightarrow> nat" where
  "clamp_index n i = (if i < 0 then nat (int n + i) else min (nat i) n)"

definition slice :: "'a list \<Rightarrow> int \<Rightarrow> int \<Rightarrow> 'a list" where
  \<comment> \<open>\<^verbatim>\<open>xs[lo:hi]\<close>\<close>
  "slice xs lo hi =
     (let a = clamp_index (length xs) lo; b = clamp_index (length xs) hi
      in take (b - a) (drop a xs))"

definition slice_to :: "'a list \<Rightarrow> int \<Rightarrow> 'a list" where
  \<comment> \<open>\<^verbatim>\<open>xs[:hi]\<close>\<close>
  "slice_to xs hi = take (clamp_index (length xs) hi) xs"

definition slice_from :: "'a list \<Rightarrow> int \<Rightarrow> 'a list" where
  \<comment> \<open>\<^verbatim>\<open>xs[lo:]\<close>\<close>
  "slice_from xs lo = drop (clamp_index (length xs) lo) xs"

subsection \<open>Character vocabulary\<close>

text \<open>
  \<^verbatim>\<open>chars = sorted(list(set(content)))\<close> and \<^verbatim>\<open>vocab_size = len(chars)\<close>.
  The order in which \<^verbatim>\<open>list(set(content))\<close> enumerates the distinct characters is
  not specified by Python; \<open>remdups\<close> fixes one enumeration, and lemma
  \<open>chars_any_enumeration\<close> below shows that the sorted result is the same for every
  other one. None of the three calls can raise on a string.
\<close>

definition chars :: "'a::linorder list \<Rightarrow> 'a list" where
  "chars content = sort (remdups content)"

definition vocab_size :: "'a list \<Rightarrow> int" where
  "vocab_size cs = int (length cs)"

subsection \<open>Tokenizer\<close>

text \<open>
  \<^verbatim>\<open>enumerate(chars)\<close> pairs every entry with its index, counting from 0. The two
  dictionary comprehensions store the pairs one after the other, a later pair
  replacing an earlier one with the same key.
\<close>

fun enumerate_from :: "int \<Rightarrow> 'a list \<Rightarrow> (int \<times> 'a) list" where
  "enumerate_from n [] = []"
| "enumerate_from n (x # xs) = (n, x) # enumerate_from (n + 1) xs"

definition char_to_idx :: "'a list \<Rightarrow> ('a \<rightharpoonup> int)" where
  \<comment> \<open>\<^verbatim>\<open>{ch: i for i, ch in enumerate(chars)}\<close>\<close>
  "char_to_idx cs = fold (\<lambda>(i, ch) m. m(ch \<mapsto> i)) (enumerate_from 0 cs) Map.empty"

definition idx_to_char :: "'a list \<Rightarrow> (int \<rightharpoonup> 'a)" where
  \<comment> \<open>\<^verbatim>\<open>{i: ch for i, ch in enumerate(chars)}\<close>\<close>
  "idx_to_char cs = fold (\<lambda>(i, ch) m. m(i \<mapsto> ch)) (enumerate_from 0 cs) Map.empty"

text \<open>
  \<^verbatim>\<open>encode = lambda s: [char_to_idx[c] for c in s]\<close>: the comprehension looks the
  characters up from left to right, and the first missing one ends it with
  \<^verbatim>\<open>KeyError(c)\<close>.
\<close>

fun encode :: "'a list \<Rightarrow> 'a list \<Rightarrow> 'a error + int list" where
  "encode cs [] = Inr []"
| "encode cs (c # s) =
     (case char_to_idx cs c of
        None \<Rightarrow> Inl (KeyError c)
      | Some i \<Rightarrow> (case encode cs s of Inl e \<Rightarrow> Inl e | Inr l \<Rightarrow> Inr (i # l)))"

text \<open>
  \<^verbatim>\<open>decode = lambda l: ''.join([idx_to_char[i] for i in l])\<close>: every looked-up value
  is a one-character string, so joining them gives the list of the characters.
\<close>

fun decode :: "'a list \<Rightarrow> int list \<Rightarrow> int error + 'a list" where
  "decode cs [] = Inr []"
| "decode cs (i # l) =
     (case idx_to_char cs i of
        None \<Rightarrow> Inl (KeyError i)
      | Some ch \<Rightarrow> (case decode cs l of Inl e \<Rightarrow> Inl e | Inr s \<Rightarrow> Inr (ch # s)))"

subsection \<open>Floating-point numbers\<close>

text \<open>
  Python's \<^verbatim>\<open>float\<close> is the IEEE-754 double. A finite double is a sign, an integer
  significand below \<open>2^53\<close> and an exponent not below \<open>-1074\<close>; it stands for the
  number \<open>\<plusminus> significand * 2^exponent\<close>, whose magnitude is below \<open>2^1024\<close>.
  The literal \<^verbatim>\<open>0.9\<close> is the double nearest to nine tenths, of significand
  \<open>8106479329266893\<close> and exponent \<open>-53\<close>.
\<close>

datatype double = Double (negative: bool) (significand: nat) (exponent: int)

fun bit_length :: "nat \<Rightarrow> nat" where
  \<comment> \<open>the number of binary digits, Python's \<^verbatim>\<open>int.bit_length\<close>\<close>
  "bit_length n = (if n = 0 then 0 else Suc (bit_length (n div 2)))"




text \<open>
  Every arithmetic result is the exact result rounded to the nearest double, a tie
  going to the even significand. \<open>round_half_even m s\<close> rounds \<open>m\<close> to a multiple of
  \<open>2^s\<close> and returns the multiple's factor. \<open>round_double\<close> rounds the exact number
  \<open>\<plusminus> m * 2^e\<close>: the last binary digit kept is the 53rd from the top, or the one of
  weight \<open>2^(-1074)\<close> if that is higher. A rounded magnitude of \<open>2^1024\<close> or more is an
  infinity, the value \<open>None\<close>.
\<close>

definition round_half_even :: "nat \<Rightarrow> nat \<Rightarrow> nat" where
  "round_half_even m s =
     (let q = m div 2 ^ s; r = m mod 2 ^ s; half = 2 ^ (s - 1)
      in if half < r \<or> (r = half \<and> odd q) then q + 1 else q)"

definition round_double :: "bool \<Rightarrow> nat \<Rightarrow> int \<Rightarrow> double option" where
  "round_double neg m e =
     (let s = max (int (bit_length m) - 53) (- 1074 - e);
          d = (if s \<le> 0 then Double neg m e
               else Double neg (round_half_even m (nat s)) (e + s))
      in if 1024 < int (bit_length (significand d)) + exponent d then None else Some d)"

text \<open>
  \<^verbatim>\<open>float(k)\<close> for an integer \<open>k \<ge> 0\<close>, as the product of a float and an integer
  converts the integer: the nearest double, and \<^verbatim>\<open>OverflowError\<close> beyond the doubles.
\<close>

definition int_to_double :: "nat \<Rightarrow> int error + double" where
  "int_to_double k =
     (case round_double False k 0 of None \<Rightarrow> Inl OverflowError | Some d \<Rightarrow> Inr d)"

definition double_mul :: "double \<Rightarrow> double \<Rightarrow> double option" where
  \<comment> \<open>the product of two finite doubles\<close>
  "double_mul a b =
     round_double (negative a \<noteq> negative b) (significand a * significand b)
       (exponent a + exponent b)"

text \<open>
  \<^verbatim>\<open>int(x)\<close> of a float drops the fractional part, rounding towards zero, and raises
  \<^verbatim>\<open>OverflowError\<close> on an infinity.
\<close>

definition py_int :: "double option \<Rightarrow> int error + int" where
  "py_int x =
     (case x of
        None \<Rightarrow> Inl OverflowError
      | Some d \<Rightarrow>
          Inr ((if negative d then - 1 else 1)
               * (if 0 \<le> exponent d then int (significand d) * 2 ^ nat (exponent d)
                  else int (significand d div 2 ^ nat (- exponent d)))))"

subsection \<open>Training and validation split\<close>

text \<open>
  \<^verbatim>\<open>n = int(0.9 * len(data))\<close>, \<^verbatim>\<open>train_data = data[:n]\<close>, \<^verbatim>\<open>val_data = data[n:]\<close>.
  The literal \<^verbatim>\<open>0.9\<close> is the parameter \<open>train_fraction\<close>, a finite double. The
  length is converted to a double, the two doubles are multiplied, and the product
  is turned into an integer.
\<close>

definition split_n :: "double \<Rightarrow> int list \<Rightarrow> int error + int" where
  "split_n train_fraction data =
     (case int_to_double (length data) of
        Inl e \<Rightarrow> Inl e
      | Inr l \<Rightarrow> py_int (double_mul train_fraction l))"

definition split :: "double \<Rightarrow> int list \<Rightarrow> int error + int list \<times> int list" where
  "split train_fraction data =
     (case split_n train_fraction data of
        Inl e \<Rightarrow> Inl e
      | Inr n \<Rightarrow> Inr (slice_to data n, slice_from data n))"

subsection \<open>Sliding window\<close>

text \<open>
  \<^verbatim>\<open>x = train_data[:block_size]\<close> and \<^verbatim>\<open>y = train_data[1:block_size+1]\<close>.
  The notebook takes the window at the head of \<open>train_data\<close>; a window that starts
  at a later offset of a region is the same cell run on the rest of the region
  from that offset on.
\<close>

definition window :: "int list \<Rightarrow> int \<Rightarrow> int list \<times> int list" where
  "window train_data block_size =
     (slice_to train_data block_size, slice train_data 1 (block_size + 1))"

text \<open>
  \<^verbatim>\<open>y[i]\<close> on a one-dimensional tensor: a negative index counts from the end, and an
  index outside the tensor raises \<^verbatim>\<open>IndexError\<close>.
\<close>

definition index_py :: "int list \<Rightarrow> int \<Rightarrow> int error + int" where
  "index_py ys i =
     (if 0 \<le> i \<and> i < int (length ys) then Inr (ys ! nat i)
      else if i < 0 \<and> - int (length ys) \<le> i then Inr (ys ! nat (int (length ys) + i))
      else Inl IndexError)"

definition range_py :: "int \<Rightarrow> int list" where
  \<comment> \<open>\<^verbatim>\<open>range(n)\<close>, empty for \<open>n \<le> 0\<close>\<close>
  "range_py n = map int [0..<nat n]"

text \<open>
  The loop
  \<^verbatim>\<open>for i in range(block_size): context = x[:i+1]; target = y[i]; print(...)\<close>.
  Its result is the list of the (context, target) pairs printed so far, together
  with the exception that ended it, if one did. A pair is printed only after its
  target has been read.
\<close>

fun sliding :: "int list \<Rightarrow> int list \<Rightarrow> int list \<Rightarrow> (int list \<times> int) list
    \<Rightarrow> (int list \<times> int) list \<times> int error option" where
  "sliding x y [] out = (out, None)"
| "sliding x y (i # is) out =
     (case index_py y i of
        Inl e \<Rightarrow> (out, Some e)
      | Inr target \<Rightarrow> sliding x y is (out @ [(slice_to x (i + 1), target)]))"

definition generate :: "int list \<Rightarrow> int \<Rightarrow> (int list \<times> int) list \<times> int error option" where
  "generate train_data block_size =
     (let (x, y) = window train_data block_size
      in sliding x y (range_py block_size) [])"

section \<open>Properties\<close>

subsection \<open>The two dictionaries\<close>

lemma fold_upd_fst:
  "fold (\<lambda>(i, ch) m. m(ch \<mapsto> i)) ps m0 = m0 ++ map_of (rev (map (\<lambda>(i, ch). (ch, i)) ps))"
  by (induction ps arbitrary: m0) (auto simp: map_add_def fun_eq_iff split: option.splits)

lemma fold_upd_snd:
  "fold (\<lambda>(i, ch) m. m(i \<mapsto> ch)) ps m0 = m0 ++ map_of (rev ps)"
  by (induction ps arbitrary: m0) (auto simp: map_add_def fun_eq_iff split: option.splits)

lemma enumerate_from_zip:
  "enumerate_from n xs = zip (map (\<lambda>k. n + int k) [0..<length xs]) xs"
proof (induction xs arbitrary: n)
  case Nil
  show ?case by simp
next
  case (Cons x xs)
  have "map (\<lambda>k. n + int k) [0..<Suc (length xs)]
      = n # map (\<lambda>k. (n + 1) + int k) [0..<length xs]"
    by (simp add: upt_conv_Cons map_Suc_upt [symmetric] del: upt_Suc)
  then show ?case using Cons.IH [of "n + 1"] by simp
qed

lemma enumerate_from_set:
  "(i, c) \<in> set (enumerate_from 0 cs) \<longleftrightarrow> 0 \<le> i \<and> nat i < length cs \<and> cs ! nat i = c"
proof -
  have "(i, c) \<in> set (enumerate_from 0 cs)
      \<longleftrightarrow> (\<exists>k < length cs. i = int k \<and> c = cs ! k)"
  proof
    assume "(i, c) \<in> set (enumerate_from 0 cs)"
    then obtain k where "k < length cs" "map (\<lambda>k. 0 + int k) [0..<length cs] ! k = i" "cs ! k = c"
      unfolding enumerate_from_zip in_set_zip by auto
    then show "\<exists>k < length cs. i = int k \<and> c = cs ! k" by auto
  next
    assume "\<exists>k < length cs. i = int k \<and> c = cs ! k"
    then obtain k where k: "k < length cs" "i = int k" "c = cs ! k" by blast
    then have "map (\<lambda>k. 0 + int k) [0..<length cs] ! k = i \<and> cs ! k = c
        \<and> k < length (map (\<lambda>k. 0 + int k) [0..<length cs]) \<and> k < length cs"
      by simp
    then show "(i, c) \<in> set (enumerate_from 0 cs)"
      unfolding enumerate_from_zip in_set_zip by (intro exI [of _ k]) simp
  qed
  also have "\<dots> \<longleftrightarrow> 0 \<le> i \<and> nat i < length cs \<and> cs ! nat i = c"
    by (metis nat_int int_nat_eq of_nat_0_le_iff)
  finally show ?thesis .
qed

lemma enumerate_from_fst_distinct: "distinct (map fst (enumerate_from n cs))"
  by (simp add: enumerate_from_zip distinct_map inj_on_def)

lemma char_to_idx_Some_D:
  assumes "char_to_idx cs c = Some i"
  shows "0 \<le> i \<and> nat i < length cs \<and> cs ! nat i = c"
proof -
  from assms have "map_of (rev (map (\<lambda>(i, ch). (ch, i)) (enumerate_from 0 cs))) c = Some i"
    by (simp add: char_to_idx_def fold_upd_fst)
  then have "(c, i) \<in> set (map (\<lambda>(i, ch). (ch, i)) (enumerate_from 0 cs))"
    by (auto dest: map_of_SomeD)
  then have "(i, c) \<in> set (enumerate_from 0 cs)"
    by auto
  then show ?thesis by (simp add: enumerate_from_set)
qed

lemma char_to_idx_dom: "dom (char_to_idx cs) = set cs"
proof -
  have "dom (char_to_idx cs) = snd ` set (enumerate_from 0 cs)"
    by (force simp: char_to_idx_def fold_upd_fst dom_map_of_conv_image_fst)
  also have "\<dots> = set (map snd (enumerate_from 0 cs))"
    by simp
  also have "\<dots> = set cs"
    by (simp only: enumerate_from_zip) simp
  finally show ?thesis .
qed

lemma idx_to_char_eq:
  "idx_to_char cs i = (if 0 \<le> i \<and> nat i < length cs then Some (cs ! nat i) else None)"
proof (cases "0 \<le> i \<and> nat i < length cs")
  case True
  then have "(i, cs ! nat i) \<in> set (rev (enumerate_from 0 cs))"
    by (simp add: enumerate_from_set)
  moreover have "distinct (map fst (rev (enumerate_from 0 cs)))"
    using enumerate_from_fst_distinct [of 0 cs] by (simp add: rev_map [symmetric])
  ultimately have "map_of (rev (enumerate_from 0 cs)) i = Some (cs ! nat i)"
    by (rule map_of_is_SomeI [rotated])
  with True show ?thesis by (simp add: idx_to_char_def fold_upd_snd)
next
  case False
  have "idx_to_char cs i = None"
  proof (rule ccontr)
    assume "idx_to_char cs i \<noteq> None"
    then obtain c where "map_of (rev (enumerate_from 0 cs)) i = Some c"
      by (auto simp: idx_to_char_def fold_upd_snd)
    then have "(i, c) \<in> set (enumerate_from 0 cs)"
      by (auto dest: map_of_SomeD)
    with False show False by (simp add: enumerate_from_set)
  qed
  with False show ?thesis by simp
qed

lemma idx_to_char_char_to_idx:
  "char_to_idx cs c = Some i \<Longrightarrow> idx_to_char cs i = Some c"
  by (drule char_to_idx_Some_D) (simp add: idx_to_char_eq)

subsection \<open>Round trip through the tokenizer\<close>

lemma encode_total:
  "set t \<subseteq> set cs \<Longrightarrow> \<exists>ids. encode cs t = Inr ids"
proof (induction t)
  case Nil
  show ?case by simp
next
  case (Cons c t)
  then have "c \<in> dom (char_to_idx cs)" by (simp add: char_to_idx_dom)
  then obtain i where "char_to_idx cs c = Some i" by auto
  moreover from Cons obtain ids where "encode cs t = Inr ids" by auto
  ultimately show ?case by simp
qed

lemma decode_encode:
  "encode cs t = Inr ids \<Longrightarrow> decode cs ids = Inr t"
proof (induction t arbitrary: ids)
  case Nil
  then show ?case by auto
next
  case (Cons c t)
  then show ?case
    by (auto split: option.splits sum.splits dest: idx_to_char_char_to_idx)
qed

text \<open>
  Claim C1. For every vocabulary list and every text whose characters all occur in
  it, encoding succeeds and decoding the result gives the text back unchanged.
  The vocabulary may be any list of characters, whatever its order.
\<close>

theorem decode_encode_roundtrip:
  "set t \<subseteq> set cs \<Longrightarrow> \<exists>ids. encode cs t = Inr ids \<and> decode cs ids = Inr t"
  using encode_total [of t cs] decode_encode [of cs t] by blast

theorem decode_encode_roundtrip_witness:
  "set ''to be, or not'' \<subseteq> set '' ,benort''
   \<and> (\<exists>ids. encode '' ,benort'' ''to be, or not'' = Inr ids
          \<and> decode '' ,benort'' ids = Inr ''to be, or not'')"
  using decode_encode_roundtrip [of "''to be, or not''" "'' ,benort''"] by simp

subsection \<open>The vocabulary list\<close>

lemma chars_sorted: "sorted (chars content)"
  by (simp add: chars_def)

lemma chars_distinct: "distinct (chars content)"
  by (simp add: chars_def)

lemma chars_set: "set (chars content) = set content"
  by (simp add: chars_def)

text \<open>
  Whatever enumeration of the distinct characters \<^verbatim>\<open>list(set(content))\<close> produces,
  sorting it gives the list \<open>chars content\<close>.
\<close>

lemma chars_any_enumeration:
  assumes "distinct ys" and "set ys = set content"
  shows "sort ys = chars content"
proof (rule sorted_distinct_set_unique)
  show "sorted (sort ys)" by simp
  show "distinct (sort ys)" using assms(1) by simp
  show "sorted (chars content)" by (rule chars_sorted)
  show "distinct (chars content)" by (rule chars_distinct)
  show "set (sort ys) = set (chars content)" using assms(2) by (simp add: chars_set)
qed

lemma char_to_idx_nth:
  assumes "distinct cs" and "k < length cs"
  shows "char_to_idx cs (cs ! k) = Some (int k)"
proof -
  from assms(2) have "cs ! k \<in> dom (char_to_idx cs)"
    by (simp add: char_to_idx_dom)
  then obtain i where i: "char_to_idx cs (cs ! k) = Some i" by auto
  then have "0 \<le> i" "nat i < length cs" "cs ! nat i = cs ! k"
    using char_to_idx_Some_D [OF i] by auto
  with assms have "nat i = k" by (simp add: nth_eq_iff_index_eq)
  with \<open>0 \<le> i\<close> have "i = int k" by simp
  with i show ?thesis by simp
qed

subsection \<open>Round trip from ids\<close>

lemma decode_total:
  "\<forall>i\<in>set ids. 0 \<le> i \<and> i < vocab_size cs \<Longrightarrow> \<exists>s. decode cs ids = Inr s"
proof (induction ids)
  case Nil
  show ?case by simp
next
  case (Cons i ids)
  then obtain s where "decode cs ids = Inr s" by auto
  moreover from Cons.prems have "0 \<le> i" and "nat i < length cs"
    by (simp_all add: vocab_size_def nat_less_iff)
  then have "idx_to_char cs i = Some (cs ! nat i)"
    by (simp add: idx_to_char_eq)
  ultimately show ?case by simp
qed

lemma encode_decode:
  "distinct cs \<Longrightarrow> decode cs ids = Inr s \<Longrightarrow> encode cs s = Inr ids"
proof (induction ids arbitrary: s)
  case Nil
  then show ?case by auto
next
  case (Cons i ids)
  from Cons.prems(2) obtain ch s' where
    ch: "idx_to_char cs i = Some ch" and s': "decode cs ids = Inr s'" and s: "s = ch # s'"
    by (auto split: option.splits sum.splits)
  from ch have "0 \<le> i" "nat i < length cs" "ch = cs ! nat i"
    by (auto simp: idx_to_char_eq split: if_splits)
  with Cons.prems(1) have "char_to_idx cs ch = Some i"
    by (simp add: char_to_idx_nth)
  moreover have "encode cs s' = Inr ids"
    using Cons.IH [OF Cons.prems(1) s'] .
  ultimately show ?case using s by simp
qed

text \<open>
  Claim C10. For every vocabulary without repeated entries, as every vocabulary
  built from a text is (lemma \<open>chars_distinct\<close>), and every list of ids that all
  lie in \<open>[0, vocab_size)\<close>, decoding succeeds and encoding the decoded string gives
  the ids back.
\<close>

theorem encode_decode_roundtrip:
  "distinct cs \<Longrightarrow> \<forall>i\<in>set ids. 0 \<le> i \<and> i < vocab_size cs \<Longrightarrow>
   \<exists>s. decode cs ids = Inr s \<and> encode cs s = Inr ids"
  using decode_total [of ids cs] encode_decode [of cs ids] by blast

theorem encode_decode_roundtrip_witness:
  "distinct (chars ''banana bread'')
   \<and> set [3, 0, 0, 2, 1] \<subseteq> {0..<vocab_size (chars ''banana bread'')}
   \<and> (\<exists>s. decode (chars ''banana bread'') [3, 0, 0, 2, 1] = Inr s
          \<and> encode (chars ''banana bread'') s = Inr [3, 0, 0, 2, 1])"
  using encode_decode_roundtrip [of "chars ''banana bread''" "[3, 0, 0, 2, 1]"]
  by (simp add: chars_def vocab_size_def)

subsection \<open>The scenario of the text hello, world\<close>

text \<open>
  Claim C6. The vocabulary of the text \<^verbatim>\<open>hello, world\<close> is its nine distinct
  characters in code-point order, numbered 0 to 8 in that order; the text encodes
  to \<open>[4,3,5,5,6,1,0,8,6,7,5,2]\<close>, and that list decodes to the text.
\<close>

theorem hello_world_scenario:
  "chars ''hello, world'' = '' ,dehlorw''
   \<and> map (char_to_idx (chars ''hello, world'')) '' ,dehlorw''
       = map Some [0, 1, 2, 3, 4, 5, 6, 7, 8]
   \<and> encode (chars ''hello, world'') ''hello, world''
       = Inr [4, 3, 5, 5, 6, 1, 0, 8, 6, 7, 5, 2]
   \<and> decode (chars ''hello, world'') [4, 3, 5, 5, 6, 1, 0, 8, 6, 7, 5, 2]
       = Inr ''hello, world''"
  by (simp add: chars_def char_to_idx_def idx_to_char_def)

subsection \<open>The vocabulary of the empty text\<close>

text \<open>
  Claim C7 says that building the vocabulary fails on the empty text. The cell has
  no check of its input: on the empty text it produces the empty vocabulary, of
  size 0.
\<close>

theorem build_empty_counterexample:
  "chars ('''' :: string) = [] \<and> vocab_size (chars ('''' :: string)) = 0"
  by (simp add: chars_def vocab_size_def)

text \<open>
  Claim C7, amended. Building the vocabulary never fails. The vocabulary holds
  exactly the characters of the text; it is empty, with size 0, for the empty text
  and has at least one entry for every other text.
\<close>

theorem build_never_fails:
  "set (chars content) = set content
   \<and> (content = [] \<longrightarrow> chars content = [] \<and> vocab_size (chars content) = 0)
   \<and> (content \<noteq> [] \<longrightarrow> chars content \<noteq> [] \<and> 1 \<le> vocab_size (chars content))"
proof -
  have "chars content = [] \<longleftrightarrow> content = []"
    using chars_set [of content] by (metis set_empty)
  moreover have "set (chars content) = set content"
    by (rule chars_set)
  ultimately show ?thesis
    by (cases "chars content") (simp_all add: vocab_size_def)
qed

theorem build_never_fails_witness:
  "chars ('''' :: string) = [] \<and> vocab_size (chars ('''' :: string)) = 0
   \<and> ''aa'' \<noteq> [] \<and> chars ''aa'' \<noteq> [] \<and> 1 \<le> vocab_size (chars ''aa'')"
  using build_never_fails [of "'''' :: string"] build_never_fails [of "''aa''"]
  by (simp add: vocab_size_def)

subsection \<open>Encoding a text with unknown symbols\<close>

lemma encode_length: "encode cs t = Inr ids \<Longrightarrow> length ids = length t"
  by (induction t arbitrary: ids) (auto split: option.splits sum.splits)

lemma encode_first_unknown:
  "set pre \<subseteq> set cs \<Longrightarrow> c \<notin> set cs \<Longrightarrow> encode cs (pre @ c # post) = Inl (KeyError c)"
proof (induction pre)
  case Nil
  then have "char_to_idx cs c = None"
    using char_to_idx_dom [of cs] by blast
  then show ?case by simp
next
  case (Cons a pre)
  then have "a \<in> dom (char_to_idx cs)" by (simp add: char_to_idx_dom)
  then obtain i where "char_to_idx cs a = Some i" by auto
  with Cons show ?case by simp
qed

text \<open>
  Claim C8 says that the failure carries the missing symbol and its position. The
  failure of the dictionary lookup carries the symbol only: the same symbol missing
  at position 0 and at position 1 gives the same failure.
\<close>

theorem encode_position_counterexample:
  "encode ''a'' ''xa'' = Inl (KeyError CHR ''x'')
   \<and> encode ''a'' ''ax'' = Inl (KeyError CHR ''x'')"
  by (simp add: char_to_idx_def)

text \<open>
  Claim C8, amended. Encoding succeeds, with one id per symbol, for every text
  whose symbols are all in the vocabulary. For every other text it fails with
  \<^verbatim>\<open>KeyError\<close> carrying the first symbol of the text that is missing from the
  vocabulary, and no ids are returned; the position is not part of the failure.
\<close>

theorem encode_unknown_symbol:
  "(set t \<subseteq> set cs \<longrightarrow> (\<exists>ids. encode cs t = Inr ids \<and> length ids = length t))
   \<and> (\<not> set t \<subseteq> set cs \<longrightarrow>
        (\<exists>pre c post. t = pre @ c # post \<and> set pre \<subseteq> set cs \<and> c \<notin> set cs
           \<and> encode cs t = Inl (KeyError c)))"
proof (intro conjI impI)
  assume "set t \<subseteq> set cs"
  then obtain ids where "encode cs t = Inr ids"
    using encode_total by blast
  then show "\<exists>ids. encode cs t = Inr ids \<and> length ids = length t"
    using encode_length by blast
next
  assume "\<not> set t \<subseteq> set cs"
  then have "\<exists>c\<in>set t. c \<notin> set cs" by blast
  from split_list_first_prop [OF this] obtain pre c post where
    t: "t = pre @ c # post" and c: "c \<notin> set cs" and pre: "\<forall>a\<in>set pre. \<not> a \<notin> set cs"
    by blast
  from pre have sub: "set pre \<subseteq> set cs" by blast
  have "encode cs (pre @ c # post) = Inl (KeyError c)"
    using sub c by (rule encode_first_unknown)
  with t sub c show "\<exists>pre c post. t = pre @ c # post \<and> set pre \<subseteq> set cs \<and> c \<notin> set cs
      \<and> encode cs t = Inl (KeyError c)"
    by (intro exI [of _ pre] exI [of _ c] exI [of _ post]) simp
qed

theorem encode_unknown_symbol_witness:
  "set ''abba'' \<subseteq> set ''ab''
   \<and> (\<exists>ids. encode ''ab'' ''abba'' = Inr ids \<and> length ids = length ''abba'')
   \<and> \<not> set ''abxay'' \<subseteq> set ''ab''
   \<and> (\<exists>pre c post. ''abxay'' = pre @ c # post \<and> set pre \<subseteq> set ''ab'' \<and> c \<notin> set ''ab''
         \<and> encode ''ab'' ''abxay'' = Inl (KeyError c))"
proof -
  have h1: "set ''abba'' \<subseteq> set ''ab''" by simp
  have h2: "\<not> set ''abxay'' \<subseteq> set ''ab''" by simp
  have c1: "\<exists>ids. encode ''ab'' ''abba'' = Inr ids \<and> length ids = length ''abba''"
    using encode_unknown_symbol [of "''abba''" "''ab''"] h1 by blast
  have c2: "\<exists>pre c post. ''abxay'' = pre @ c # post \<and> set pre \<subseteq> set ''ab'' \<and> c \<notin> set ''ab''
         \<and> encode ''ab'' ''abxay'' = Inl (KeyError c)"
    using encode_unknown_symbol [of "''abxay''" "''ab''"] h2 by blast
  from h1 h2 c1 c2 show ?thesis by blast
qed

subsection \<open>Ids are ranks\<close>

lemma strict_sorted_below_nth:
  fixes xs :: "'a::linorder list"
  assumes "sorted xs" and "distinct xs" and "k < length xs"
  shows "{d \<in> set xs. d < xs ! k} = set (take k xs)"
proof -
  have strict: "sorted_wrt (<) xs"
    using assms by (simp add: strict_sorted_iff)
  show ?thesis
  proof (intro equalityI subsetI)
    fix d assume "d \<in> {d \<in> set xs. d < xs ! k}"
    then obtain j where j: "j < length xs" "d = xs ! j" and lt: "d < xs ! k"
      by (auto simp: in_set_conv_nth)
    have "j < k"
    proof (rule ccontr)
      assume "\<not> j < k"
      then have "k \<le> j" by simp
      with assms(1) j(1) have "xs ! k \<le> xs ! j" by (simp add: sorted_nth_mono)
      with lt j(2) show False by simp
    qed
    with j assms(3) show "d \<in> set (take k xs)"
      by (auto simp: in_set_conv_nth intro!: exI [of _ j])
  next
    fix d assume "d \<in> set (take k xs)"
    then obtain j where j: "j < k" "d = xs ! j"
      using assms(3) by (auto simp: in_set_conv_nth)
    with strict assms(3) have "xs ! j < xs ! k" by (simp add: sorted_wrt_nth_less)
    with j assms(3) show "d \<in> {d \<in> set xs. d < xs ! k}" by simp
  qed
qed

lemma chars_rank:
  assumes "c \<in> set content"
  shows "char_to_idx (chars content) c = Some (int (card {d \<in> set content. d < c}))"
proof -
  from assms have "c \<in> set (chars content)" by (simp add: chars_set)
  then obtain k where k: "k < length (chars content)" "chars content ! k = c"
    by (auto simp: in_set_conv_nth)
  have "{d \<in> set (chars content). d < chars content ! k} = set (take k (chars content))"
    using chars_sorted chars_distinct k(1) by (rule strict_sorted_below_nth)
  then have "card {d \<in> set content. d < c} = card (set (take k (chars content)))"
    using k(2) by (simp add: chars_set)
  also have "\<dots> = length (take k (chars content))"
    by (rule distinct_card) (simp add: chars_distinct)
  also have "\<dots> = k" using k(1) by simp
  finally show ?thesis
    using char_to_idx_nth [OF chars_distinct k(1)] k(2) by simp
qed

lemma char_to_idx_bij:
  assumes "distinct cs"
  shows "bij_betw (\<lambda>c. the (char_to_idx cs c)) (set cs) {0..<vocab_size cs}"
proof (rule bij_betw_byWitness [where f' = "\<lambda>i. cs ! nat i"])
  show "\<forall>c\<in>set cs. cs ! nat (the (char_to_idx cs c)) = c"
    using assms by (auto simp: in_set_conv_nth char_to_idx_nth)
  show "\<forall>i\<in>{0..<vocab_size cs}. the (char_to_idx cs (cs ! nat i)) = i"
    using assms by (auto simp: vocab_size_def char_to_idx_nth)
  show "(\<lambda>c. the (char_to_idx cs c)) ` set cs \<subseteq> {0..<vocab_size cs}"
    using assms by (auto simp: in_set_conv_nth char_to_idx_nth vocab_size_def)
  show "(\<lambda>i. cs ! nat i) ` {0..<vocab_size cs} \<subseteq> set cs"
    by (auto simp: vocab_size_def)
qed

text \<open>
  Claim C4. For a non-empty text the vocabulary is the sorted list of its distinct
  symbols; the id of a symbol is its rank, the number of symbols of the text below
  it; symbol to id is a bijection from the symbols of the text onto
  \<open>{0, \<dots>, vocab_size - 1}\<close>, inverted by id to symbol; the size is the number
  of distinct symbols; and a text with the same symbols, in whatever order they
  first occur, gets the same vocabulary.
\<close>

theorem build_rank_bijection:
  "content \<noteq> [] \<Longrightarrow>
   sorted (chars content) \<and> distinct (chars content) \<and> set (chars content) = set content
   \<and> (\<forall>c\<in>set content.
         char_to_idx (chars content) c = Some (int (card {d \<in> set content. d < c})))
   \<and> bij_betw (\<lambda>c. the (char_to_idx (chars content) c)) (set content)
         {0..<vocab_size (chars content)}
   \<and> (\<forall>c\<in>set content. \<forall>i. char_to_idx (chars content) c = Some i
         \<longrightarrow> idx_to_char (chars content) i = Some c)
   \<and> vocab_size (chars content) = int (card (set content))
   \<and> (set content' = set content \<longrightarrow> chars content' = chars content)"
proof -
  have "bij_betw (\<lambda>c. the (char_to_idx (chars content) c)) (set (chars content))
         {0..<vocab_size (chars content)}"
    using chars_distinct by (rule char_to_idx_bij)
  moreover have "int (length (chars content)) = int (card (set content))"
    using distinct_card [OF chars_distinct, of content] by (simp add: chars_set)
  moreover have "set content' = set content \<longrightarrow> chars content' = chars content"
    using chars_any_enumeration [of "remdups content'" content] by (simp add: chars_def)
  ultimately show ?thesis
    by (simp add: chars_sorted chars_distinct chars_set chars_rank idx_to_char_char_to_idx
        vocab_size_def)
qed

theorem build_rank_bijection_witness:
  "''banana'' \<noteq> []
   \<and> chars ''banana'' = ''abn''
   \<and> char_to_idx (chars ''banana'') CHR ''n'' = Some (int (card {d \<in> set ''banana''. d < CHR ''n''}))
   \<and> char_to_idx (chars ''banana'') CHR ''n'' = Some 2
   \<and> bij_betw (\<lambda>c. the (char_to_idx (chars ''banana'') c)) (set ''banana'') {0..<3}
   \<and> vocab_size (chars ''banana'') = int (card (set ''banana''))
   \<and> chars ''nab'' = chars ''banana''"
  using build_rank_bijection [of "''banana''" "''nab''"]
  by (simp add: chars_def char_to_idx_def vocab_size_def)

subsection \<open>Slices with bounds inside the list\<close>

lemma clamp_index_nat [simp]: "clamp_index n (int k) = min k n"
  by (simp add: clamp_index_def)

lemma slice_to_nat: "slice_to xs (int k) = take k xs"
  by (cases "k \<le> length xs") (simp_all add: slice_to_def min_def)

lemma slice_from_nat: "slice_from xs (int k) = drop k xs"
  by (cases "k \<le> length xs") (simp_all add: slice_from_def min_def)

lemma slice_nat: "slice xs (int a) (int b) = take (b - a) (drop a xs)"
proof (cases "a \<le> length xs")
  case True
  have "take (min b (length xs) - a) (drop a xs) = take (b - a) (drop a xs)"
  proof (cases "b \<le> length xs")
    case True
    then show ?thesis by (simp add: min_def)
  next
    case False
    with True show ?thesis by (simp add: min_def)
  qed
  with True show ?thesis by (simp add: slice_def Let_def min_def)
next
  case False
  then show ?thesis by (simp add: slice_def Let_def)
qed





subsection \<open>The split\<close>

text \<open>
  The recursion equation of \<open>bit_length\<close> is applied on request only.
\<close>

declare bit_length.simps [simp del]










subsection \<open>The window\<close>

lemma window_nat:
  "window td (int len) = (take len td, take len (drop 1 td))"
proof -
  have "slice td 1 (int len + 1) = slice td (int 1) (int (len + 1))" by (simp add: ac_simps)
  also have "\<dots> = take len (drop 1 td)" by (simp only: slice_nat) simp
  finally show ?thesis by (simp add: window_def slice_to_nat)
qed

lemma window_suffix:
  "window (drop start region) (int len)
     = (slice region (int start) (int start + int len),
        slice region (int start + 1) (int start + int len + 1))"
proof -
  have "slice region (int start) (int start + int len) = slice region (int start) (int (start + len))"
    by simp
  also have "\<dots> = take len (drop start region)" by (simp only: slice_nat) simp
  finally have c: "slice region (int start) (int start + int len) = take len (drop start region)" .
  have "slice region (int start + 1) (int start + int len + 1)
      = slice region (int (start + 1)) (int (start + len + 1))"
    by (simp add: ac_simps)
  also have "\<dots> = take len (drop (start + 1) region)" by (simp only: slice_nat) simp
  finally show ?thesis by (simp add: window_nat c)
qed

text \<open>
  Claim C2. When the window of the given length at offset \<open>start\<close> lies inside
  the region together with the symbol after it, the cell run on the region from
  \<open>start\<close> on returns the context \<^verbatim>\<open>region[start : start+length]\<close> and the target
  \<^verbatim>\<open>region[start+1 : start+length+1]\<close>, both of the full length. At every position
  \<open>k\<close> of the window the target holds the symbol of the region that follows the
  first \<open>k + 1\<close> symbols of the context, and the target is the context moved left
  by one index.
\<close>

theorem window_shift:
  assumes "window (drop start region) (int len) = (ctx, tgt)"
    and "start + len + 1 \<le> length region"
  shows "ctx = slice region (int start) (int start + int len)
     \<and> tgt = slice region (int start + 1) (int start + int len + 1)
     \<and> length ctx = len \<and> length tgt = len
     \<and> (\<forall>k<len. ctx ! k = region ! (start + k) \<and> tgt ! k = region ! (start + k + 1))
     \<and> (\<forall>k<len. take (k + 1) ctx = slice region (int start) (int start + int k + 1))
     \<and> (\<forall>k. k + 1 < len \<longrightarrow> tgt ! k = ctx ! (k + 1))"
proof -
  from assms(1) have sl: "ctx = slice region (int start) (int start + int len)"
      "tgt = slice region (int start + 1) (int start + int len + 1)"
    by (simp_all add: window_suffix)
  from assms(1) have ctx: "ctx = take len (drop start region)"
    and tgt: "tgt = take len (drop (start + 1) region)"
    by (simp_all add: window_nat)
  have lc: "length ctx = len" and lt: "length tgt = len"
    using assms(2) by (simp_all add: ctx tgt)
  have nth: "\<forall>k<len. ctx ! k = region ! (start + k) \<and> tgt ! k = region ! (start + k + 1)"
    using assms(2) by (simp add: ctx tgt)
  have pre: "\<forall>k<len. take (k + 1) ctx = slice region (int start) (int start + int k + 1)"
  proof (intro allI impI)
    fix k assume k: "k < len"
    have "slice region (int start) (int start + int k + 1)
        = slice region (int start) (int (start + k + 1))" by (simp add: ac_simps)
    also have "\<dots> = take (k + 1) (drop start region)" by (simp only: slice_nat) simp
    finally show "take (k + 1) ctx = slice region (int start) (int start + int k + 1)"
      using k by (simp add: ctx min_def)
  qed
  have sh: "\<forall>k. k + 1 < len \<longrightarrow> tgt ! k = ctx ! (k + 1)"
    using nth by simp
  from sl lc lt nth pre sh show ?thesis by blast
qed

theorem window_shift_witness:
  "window (drop 2 [18, 47, 56, 57, 58, 1, 15, 47, 58]) (int 3) = ([56, 57, 58], [57, 58, 1])
   \<and> (2::nat) + 3 + 1 \<le> length [18, 47, 56, 57, 58, 1, 15, 47, 58 :: int]
   \<and> [56, 57, 58] = slice [18, 47, 56, 57, 58, 1, 15, 47, 58 :: int] (int 2) (int 2 + int 3)
   \<and> [57, 58, 1] = slice [18, 47, 56, 57, 58, 1, 15, 47, 58 :: int] (int 2 + 1) (int 2 + int 3 + 1)
   \<and> [57, 58, 1] ! 0 = [18, 47, 56, 57, 58, 1, 15, 47, 58 :: int] ! (2 + 0 + 1)
   \<and> [57, 58, 1] ! 1 = [18, 47, 56, 57, 58, 1, 15, 47, 58 :: int] ! (2 + 1 + 1)
   \<and> [57, 58, 1] ! 2 = [18, 47, 56, 57, 58, 1, 15, 47, 58 :: int] ! (2 + 2 + 1)
   \<and> [57, 58, 1 :: int] ! 0 = [56, 57, 58] ! (0 + 1)
   \<and> [57, 58, 1 :: int] ! 1 = [56, 57, 58] ! (1 + 1)"
proof -
  have w: "window (drop 2 [18, 47, 56, 57, 58, 1, 15, 47, 58]) (int 3) = ([56, 57, 58], [57, 58, 1])"
    by (simp add: window_def slice_to_def slice_def clamp_index_def)
  have r: "(2::nat) + 3 + 1 \<le> length [18, 47, 56, 57, 58, 1, 15, 47, 58 :: int]"
    by simp
  have k: "(0::nat) < 3" "(1::nat) < 3" "(2::nat) < 3" "(0::nat) + 1 < 3" "(1::nat) + 1 < 3"
    by simp_all
  from window_shift [OF w r] w r k show ?thesis by blast
qed

text \<open>
  Claim C9 says that the window fails when \<open>start + length + 1\<close> exceeds the length
  of the region. Slicing does not fail: on a region of three symbols the window of
  length three is returned with a target of two symbols only.
\<close>

theorem window_truncated_counterexample:
  "window [1, 2, 3] 3 = ([1, 2, 3], [2, 3])"
  by (simp add: window_def slice_to_def slice_def clamp_index_def)

text \<open>
  Claim C9, amended. When \<open>start + length + 1\<close> exceeds the length of the region,
  the window does not fail. It returns the same two slices, clamped to the region:
  the target is all that is left of the region after position \<open>start\<close>, which is
  fewer than \<open>length\<close> symbols whenever \<open>length\<close> is positive.
\<close>

theorem window_out_of_range:
  assumes "length region < start + len + 1"
  shows "window (drop start region) (int len)
       = (slice region (int start) (int start + int len),
          slice region (int start + 1) (int start + int len + 1))
     \<and> snd (window (drop start region) (int len)) = drop (start + 1) region
     \<and> (0 < len \<longrightarrow> length (snd (window (drop start region) (int len))) < len)"
proof -
  have "snd (window (drop start region) (int len)) = take len (drop (start + 1) region)"
    by (simp add: window_nat)
  also have "\<dots> = drop (start + 1) region"
    using assms by simp
  finally have s: "snd (window (drop start region) (int len)) = drop (start + 1) region" .
  have "0 < len \<longrightarrow> length (drop (start + 1) region) < len"
    using assms by auto
  with s show ?thesis by (simp add: window_suffix)
qed

theorem window_out_of_range_witness:
  "length [1, 2, 3 :: int] < 0 + 3 + 1
   \<and> window (drop 0 [1, 2, 3]) (int 3) = ([1, 2, 3], [2, 3])
   \<and> snd (window (drop 0 [1, 2, 3]) (int 3)) = drop (0 + 1) [1, 2, 3]
   \<and> length (snd (window (drop 0 [1, 2, 3]) (int 3))) < 3"
  using window_out_of_range [of "[1, 2, 3]" 0 3]
  by (simp add: slice_def clamp_index_def)

subsection \<open>The loop over the context lengths\<close>

lemma index_py_nat:
  "index_py ys (int k) = (if k < length ys then Inr (ys ! k) else Inl IndexError)"
  by (simp add: index_py_def)

lemma sliding_run:
  "sliding x y (map int [i..<m]) out
     = (out @ map (\<lambda>k. (slice_to x (int k + 1), y ! k)) [i..<min m (length y)],
        if i < m \<and> length y < m then Some IndexError else None)"
proof (induction "m - i" arbitrary: i out)
  case 0
  then show ?case by simp
next
  case (Suc d)
  then have im: "i < m" and d: "d = m - Suc i" by simp_all
  from im have up: "[i..<m] = i # [Suc i..<m]" by (simp add: upt_conv_Cons)
  show ?case
  proof (cases "i < length y")
    case True
    with im have "[i..<min m (length y)] = i # [Suc i..<min m (length y)]"
      by (simp add: upt_conv_Cons)
    moreover from True have "(Suc i < m \<and> length y < m) = (i < m \<and> length y < m)"
      by auto
    ultimately show ?thesis
      using True Suc.hyps(1) [OF d, of "out @ [(slice_to x (int i + 1), y ! i)]"]
      by (simp add: up index_py_nat)
  next
    case False
    with im show ?thesis by (simp add: up index_py_nat)
  qed
qed

lemma generate_suffix:
  "generate (drop start region) (int mc)
     = (map (\<lambda>n. (slice region (int start) (int start + int n), region ! (start + n)))
          [1..<Suc (min mc (length region - start - 1))],
        if 0 < mc \<and> length region \<le> start + mc then Some IndexError else None)"
proof -
  let ?td = "drop start region"
  let ?x = "take mc ?td" and ?y = "take mc (drop 1 ?td)"
  let ?ly = "min mc (length region - start - 1)"
  have ly: "length ?y = ?ly" by (simp add: min_def)
  have g: "generate ?td (int mc)
      = (map (\<lambda>k. (slice_to ?x (int k + 1), ?y ! k)) [0..<?ly],
         if 0 < mc \<and> length ?y < mc then Some IndexError else None)"
  proof -
    have "generate ?td (int mc) = sliding ?x ?y (map int [0..<mc]) []"
      by (simp add: generate_def window_nat range_py_def)
    also have "\<dots> = ([] @ map (\<lambda>k. (slice_to ?x (int k + 1), ?y ! k)) [0..<min mc (length ?y)],
        if 0 < mc \<and> length ?y < mc then Some IndexError else None)"
      by (rule sliding_run)
    also have "min mc (length ?y) = ?ly"
      by (simp only: ly)
    finally show ?thesis by simp
  qed
  have e: "(0 < mc \<and> length ?y < mc) = (0 < mc \<and> length region \<le> start + mc)"
    by (auto simp: min_def)
  have "map (\<lambda>k. (slice_to ?x (int k + 1), ?y ! k)) [0..<?ly]
      = map (\<lambda>k. (slice region (int start) (int start + int (Suc k)), region ! (start + Suc k)))
          [0..<?ly]"
  proof (rule map_cong [OF refl])
    fix k assume "k \<in> set [0..<?ly]"
    then have k: "k < mc" "start + k + 1 < length region" by auto
    have "slice_to ?x (int k + 1) = slice_to ?x (int (k + 1))" by (simp add: ac_simps)
    also have "\<dots> = take (k + 1) ?td" using k(1) by (simp only: slice_to_nat) (simp add: min_def)
    also have "\<dots> = slice region (int start) (int (start + Suc k))"
      by (simp only: slice_nat) simp
    finally have c: "slice_to ?x (int k + 1) = slice region (int start) (int start + int (Suc k))"
      by (simp add: ac_simps)
    have "?y ! k = region ! (start + Suc k)"
      using k by (simp add: ac_simps)
    with c show "(slice_to ?x (int k + 1), ?y ! k)
        = (slice region (int start) (int start + int (Suc k)), region ! (start + Suc k))"
      by simp
  qed
  also have "\<dots> = map (\<lambda>n. (slice region (int start) (int start + int n), region ! (start + n)))
      (map Suc [0..<?ly])"
    by (simp add: comp_def)
  also have "map Suc [0..<?ly] = [1..<Suc ?ly]"
    by (simp only: map_Suc_upt One_nat_def)
  finally show ?thesis by (simp only: g e)
qed

text \<open>
  Claim C3 says that the loop stops early without an error when the region is too
  short. On a region of eight symbols with block size eight the loop prints seven
  pairs and is then ended by \<^verbatim>\<open>IndexError\<close>, raised by reading the eighth target.
\<close>

theorem generate_counterexample:
  "generate [1, 2, 3, 4, 5, 6, 7, 8] 8
     = ([([1], 2), ([1, 2], 3), ([1, 2, 3], 4), ([1, 2, 3, 4], 5), ([1, 2, 3, 4, 5], 6),
         ([1, 2, 3, 4, 5, 6], 7), ([1, 2, 3, 4, 5, 6, 7], 8)],
        Some IndexError)"
  by (simp add: generate_def window_def slice_to_def slice_def clamp_index_def range_py_def
      index_py_def upt_rec)

text \<open>
  Claim C3, amended. When the region has a symbol at \<open>start + max_context\<close>, the
  loop produces one pair for every context length \<open>n\<close> from 1 to \<open>max_context\<close>, with
  context \<^verbatim>\<open>region[start : start+n]\<close> and target \<^verbatim>\<open>region[start+n]\<close>, and ends
  normally. When the region is shorter and \<open>max_context\<close> is positive, it produces
  those pairs only whose target lies inside the region, fewer than \<open>max_context\<close>,
  and is then ended by \<^verbatim>\<open>IndexError\<close>. On the region
  \<open>[18,47,56,57,58,1,15,47,58]\<close> with block size 8 it produces eight pairs, the
  fifth being \<open>([18,47,56,57,58], 1)\<close>.
\<close>

theorem generate_examples:
  "(start + mc < length region \<longrightarrow>
      generate (drop start region) (int mc)
        = (map (\<lambda>n. (slice region (int start) (int start + int n), region ! (start + n)))
             [1..<Suc mc],
           None))
   \<and> (0 < mc \<and> length region \<le> start + mc \<longrightarrow>
      generate (drop start region) (int mc)
        = (map (\<lambda>n. (slice region (int start) (int start + int n), region ! (start + n)))
             [1..<length region - start],
           Some IndexError)
      \<and> length (fst (generate (drop start region) (int mc))) < mc)
   \<and> generate [18, 47, 56, 57, 58, 1, 15, 47, 58] 8
        = ([([18], 47), ([18, 47], 56), ([18, 47, 56], 57), ([18, 47, 56, 57], 58),
            ([18, 47, 56, 57, 58], 1), ([18, 47, 56, 57, 58, 1], 15),
            ([18, 47, 56, 57, 58, 1, 15], 47), ([18, 47, 56, 57, 58, 1, 15, 47], 58)],
           None)"
proof (intro conjI impI)
  assume "start + mc < length region"
  then have "min mc (length region - start - 1) = mc" by simp
  with \<open>start + mc < length region\<close>
  show "generate (drop start region) (int mc)
        = (map (\<lambda>n. (slice region (int start) (int start + int n), region ! (start + n)))
             [1..<Suc mc], None)"
    by (simp add: generate_suffix)
next
  assume a: "0 < mc \<and> length region \<le> start + mc"
  then have m: "Suc (min mc (length region - start - 1)) = max 1 (length region - start)"
    by (auto simp: min_def max_def)
  have u: "[1..<max 1 (length region - start)] = [1..<length region - start]"
    by (auto simp: max_def)
  from a show g: "generate (drop start region) (int mc)
        = (map (\<lambda>n. (slice region (int start) (int start + int n), region ! (start + n)))
             [1..<length region - start], Some IndexError)"
    by (simp only: generate_suffix m u) simp
  from a show "length (fst (generate (drop start region) (int mc))) < mc"
    by (simp only: g) auto
next
  show "generate [18, 47, 56, 57, 58, 1, 15, 47, 58] 8
        = ([([18], 47), ([18, 47], 56), ([18, 47, 56], 57), ([18, 47, 56, 57], 58),
            ([18, 47, 56, 57, 58], 1), ([18, 47, 56, 57, 58, 1], 15),
            ([18, 47, 56, 57, 58, 1, 15], 47), ([18, 47, 56, 57, 58, 1, 15, 47], 58)],
           None)"
    by (simp add: generate_def window_def slice_to_def slice_def clamp_index_def range_py_def
        index_py_def upt_rec)
qed

theorem generate_examples_witness:
  "(2::nat) + 3 < length [18, 47, 56, 57, 58, 1, 15, 47, 58 :: int]
   \<and> generate (drop 2 [18, 47, 56, 57, 58, 1, 15, 47, 58]) (int 3)
       = ([([56], 57), ([56, 57], 58), ([56, 57, 58], 1)], None)
   \<and> (0::nat) < 4 \<and> length [1, 2, 3, 4, 5, 6, 7, 8 :: int] \<le> 5 + 4
   \<and> generate (drop 5 [1, 2, 3, 4, 5, 6, 7, 8]) (int 4)
       = ([([6], 7), ([6, 7], 8)], Some IndexError)"
proof -
  have h1: "(2::nat) + 3 < length [18, 47, 56, 57, 58, 1, 15, 47, 58 :: int]"
    by simp
  have h2: "(0::nat) < 4 \<and> length [1, 2, 3, 4, 5, 6, 7, 8 :: int] \<le> 5 + 4"
    by simp
  have "generate (drop 2 [18, 47, 56, 57, 58, 1, 15, 47, 58]) (int 3)
      = (map (\<lambda>n. (slice [18, 47, 56, 57, 58, 1, 15, 47, 58] (int 2) (int 2 + int n),
                    [18, 47, 56, 57, 58, 1, 15, 47, 58] ! (2 + n))) [1..<Suc 3], None)"
    using generate_examples [of 2 3 "[18, 47, 56, 57, 58, 1, 15, 47, 58]"] h1 by blast
  then have c1: "generate (drop 2 [18, 47, 56, 57, 58, 1, 15, 47, 58]) (int 3)
      = ([([56], 57), ([56, 57], 58), ([56, 57, 58], 1)], None)"
    by (simp add: slice_def clamp_index_def upt_rec)
  have "generate (drop 5 [1, 2, 3, 4, 5, 6, 7, 8]) (int 4)
      = (map (\<lambda>n. (slice [1, 2, 3, 4, 5, 6, 7, 8] (int 5) (int 5 + int n),
                    [1, 2, 3, 4, 5, 6, 7, 8] ! (5 + n)))
           [1..<length [1, 2, 3, 4, 5, 6, 7, 8 :: int] - 5], Some IndexError)"
    using generate_examples [of 5 4 "[1, 2, 3, 4, 5, 6, 7, 8]"] h2 by blast
  then have c2: "generate (drop 5 [1, 2, 3, 4, 5, 6, 7, 8]) (int 4)
      = ([([6], 7), ([6, 7], 8)], Some IndexError)"
    by (simp add: slice_def clamp_index_def upt_rec)
  from h1 h2 c1 c2 show ?thesis by blast
qed

end
